theory Spec2Isabelle
  imports Main
begin

section \<open>The reversible action history of \<open>control/history.ts\<close>\<close>

text \<open>
  The class \<open>History\<close> keeps three containers of recorded actions (the pending buffer
  \<open>_actions\<close>, the committed groups \<open>_action_groups\<close> and the undone groups
  \<open>_undone\<close>), the handle of the auto-group timer and the reentrancy flag
  \<open>_action_lock\<close>. The model below follows the TypeScript method by method.

  JavaScript arrays are objects: \<open>undo = this._actions\<close> and
  \<open>this._undone.push(undo)\<close> store a reference, and \<open>undo.reverse()\<close> and
  \<open>this._actions.push(...)\<close> change the array behind every reference to it. The
  arrays of actions therefore live in an explicit heap, a function from references to
  array contents, and the three containers hold references. The two outer arrays
  (\<open>_action_groups\<close>, \<open>_undone\<close>) are never shared, so they are plain lists of
  references; \<open>push\<close> appends at the end and \<open>pop\<close> takes the last element.
\<close>

subsection \<open>Data\<close>

text \<open>\<open>{name: string; parameters: any[]}\<close>, with the opaque parameter values of type \<open>'v\<close>.\<close>

record 'v descriptor =
  name :: string
  parameters :: "'v list"

text \<open>\<open>interface IHistoricAction\<close>.\<close>

record 'v IHistoricAction =
  forward :: "'v descriptor"
  backward :: "'v descriptor"

text \<open>A thrown JavaScript value.\<close>

type_synonym exn = string

text \<open>
  The command registry \<open>this._map\<close> (module \<open>./map\<close>) is not part of the sources at
  hand, so it is a parameter: \<open>reg n ps\<close> tells whether \<open>invoke(n, ps)\<close> returns
  (\<open>None\<close>) or throws (\<open>Some e\<close>). Every call of \<open>invoke\<close> is recorded, in order, in
  the field \<open>invoked\<close> of the state. What a handler does to the editor is outside the
  manager. A handler that calls back into the manager while a replay runs finds the flag
  set. Such calls are not part of the replay loop \<open>forEach\<close> below; every method is
  defined on the states with the flag set as well, and \<open>reach\<close> further down lets a
  handler make them.
\<close>

type_synonym 'v registry = "string \<Rightarrow> 'v list \<Rightarrow> exn option"

text \<open>
  The fields of \<open>History\<close>, followed by the part of the environment the methods act on:
  the timers the host has scheduled and not yet fired or cancelled (handle and delay),
  the next fresh timer handle, and the log of registry invocations.
\<close>

record 'v history =
  heap :: "nat \<Rightarrow> 'v IHistoricAction list"
  next_ref :: nat
  actions :: nat
  action_groups :: "nat list"
  undone :: "nat list"
  autogroup :: "nat option"
  action_lock :: bool
  timers :: "(nat \<times> int) list"
  next_timer :: nat
  invoked :: "(string \<times> 'v list) list"

text \<open>The state the constructor leaves: three empty arrays, no timer, flag clear.\<close>

definition init :: "'v history" where
  "init = \<lparr>heap = (\<lambda>_. []), next_ref = 1, actions = 0, action_groups = [], undone = [],
     autogroup = None, action_lock = False, timers = [], next_timer = 0, invoked = []\<rparr>"

text \<open>The contents of the pending buffer.\<close>

definition pending :: "'v history \<Rightarrow> 'v IHistoricAction list" where
  "pending s = heap s (actions s)"

subsection \<open>The timer primitive of the host\<close>

text \<open>
  Modelled from the spec: the timer primitive is the host's (\<open>setTimeout\<close>,
  \<open>clearTimeout\<close>), described in the spec as \<open>schedule(callback, delay) \<rightarrow> handle\<close>
  and \<open>cancel(handle)\<close> with fire-once semantics, cancelling an unknown handle being a
  no-op. The only callback this class ever schedules is \<open>() => this.group_actions()\<close>,
  so a scheduled timer is its handle and its delay. Real time is not modelled: a
  scheduled timer may fire (\<open>fire\<close> below) at any moment between two calls, and a timer
  that is no longer scheduled cannot fire.
\<close>

definition setTimeout :: "int \<Rightarrow> 'v history \<Rightarrow> nat \<times> 'v history" where
  "setTimeout delay s =
     (next_timer s,
      s\<lparr>timers := timers s @ [(next_timer s, delay)], next_timer := Suc (next_timer s)\<rparr>)"

definition clearTimeout :: "nat \<Rightarrow> 'v history \<Rightarrow> 'v history" where
  "clearTimeout h s = s\<lparr>timers := filter (\<lambda>t. fst t \<noteq> h) (timers s)\<rparr>"

definition scheduled :: "nat \<Rightarrow> 'v history \<Rightarrow> bool" where
  "scheduled h s = (h \<in> fst ` set (timers s))"

subsection \<open>\<open>push_action\<close>\<close>

text \<open>
  Lines 64 to 92. \<open>autogroup_delay\<close> is \<open>None\<close> when the optional argument is
  \<open>undefined\<close>.
\<close>

definition push_action ::
  "string \<Rightarrow> 'v list \<Rightarrow> string \<Rightarrow> 'v list \<Rightarrow> int option \<Rightarrow> 'v history \<Rightarrow> 'v history" where
  "push_action forward_name forward_params backward_name backward_params autogroup_delay s =
     (if action_lock s then s
      else
        let s1 = s\<lparr>heap := (heap s)(actions s := heap s (actions s) @
                      [\<lparr>forward = \<lparr>name = forward_name, parameters = forward_params\<rparr>,
                        backward = \<lparr>name = backward_name, parameters = backward_params\<rparr>\<rparr>]),
                    undone := []\<rparr>
        in case autogroup_delay of
             None \<Rightarrow> s1
           | Some delay \<Rightarrow>
               let s2 = (case autogroup s1 of None \<Rightarrow> s1 | Some h \<Rightarrow> clearTimeout h s1);
                   (h', s3) = setTimeout delay s2
               in s3\<lparr>autogroup := Some h'\<rparr>)"

subsection \<open>\<open>group_actions\<close>\<close>

text \<open>
  Lines 97 to 104. The handle is forgotten first, whatever the flag says, and no
  \<open>clearTimeout\<close> is called here. \<open>this._actions = []\<close> allocates a new array.
\<close>

definition group_actions :: "'v history \<Rightarrow> 'v history" where
  "group_actions s =
     (let s1 = s\<lparr>autogroup := None\<rparr>
      in if action_lock s1 then s1
         else s1\<lparr>action_groups := action_groups s1 @ [actions s1],
                 heap := (heap s1)(next_ref s1 := []),
                 actions := next_ref s1,
                 next_ref := Suc (next_ref s1),
                 undone := []\<rparr>)"

text \<open>A scheduled timer fires: it leaves the host's schedule and runs its callback.\<close>

definition fire :: "nat \<Rightarrow> 'v history \<Rightarrow> 'v history" where
  "fire h s = (if scheduled h s then group_actions (clearTimeout h s) else s)"

subsection \<open>Replay\<close>

text \<open>\<open>this._map.invoke(n, ps)\<close>: the call is logged, and returns or throws.\<close>

definition invoke :: "'v registry \<Rightarrow> 'v descriptor \<Rightarrow> 'v history \<Rightarrow> exn option \<times> 'v history" where
  "invoke reg d s =
     (reg (name d) (parameters d), s\<lparr>invoked := invoked s @ [(name d, parameters d)]\<rparr>)"

text \<open>
  \<open>unit.forEach(action => this._map.invoke(...))\<close> over the descriptors of a unit: a
  throw ends the loop and leaves through the \<open>try\<close>.
\<close>

fun forEach :: "'v registry \<Rightarrow> 'v descriptor list \<Rightarrow> 'v history \<Rightarrow> exn option \<times> 'v history" where
  "forEach reg [] s = (None, s)"
| "forEach reg (d # ds) s =
     (case invoke reg d s of
        (Some e, s') \<Rightarrow> (Some e, s')
      | (None, s') \<Rightarrow> forEach reg ds s')"

subsection \<open>\<open>undo\<close>\<close>

text \<open>
  Lines 110 to 114: an armed timer is cancelled and the pending actions are grouped at
  once.
\<close>

definition undo_flush :: "'v history \<Rightarrow> 'v history" where
  "undo_flush s =
     (case autogroup s of
        None \<Rightarrow> s
      | Some h \<Rightarrow> group_actions (clearTimeout h s))"

text \<open>
  Lines 116 to 124: the unit is chosen, the pending buffer itself when it is not empty,
  else the last committed group, popped and reversed in place. The result is the
  reference of the unit (or \<open>None\<close> for the early \<open>return true\<close>) and the state
  reached.
\<close>

definition undo_select :: "'v history \<Rightarrow> nat option \<times> 'v history" where
  "undo_select s =
     (let s1 = undo_flush s
      in if length (heap s1 (actions s1)) > 0 then (Some (actions s1), s1)
         else if length (action_groups s1) > 0 then
           (let u = last (action_groups s1);
                s2 = s1\<lparr>action_groups := butlast (action_groups s1)\<rparr>
            in (Some u, s2\<lparr>heap := (heap s2)(u := rev (heap s2 u))\<rparr>))
         else (None, s1))"

text \<open>
  Lines 126 to 140, for the unit \<open>u\<close>: replay under the flag with \<open>try ... finally\<close>,
  then \<open>this._undone.push(undo)\<close>. A throw passes the \<open>finally\<close> and leaves the
  method, so the push is not reached.
\<close>

definition undo_unit :: "'v registry \<Rightarrow> nat \<Rightarrow> 'v history \<Rightarrow> (exn + bool) \<times> 'v history" where
  "undo_unit reg u s =
     (if \<not> action_lock s then
        (case forEach reg (map backward (heap s u)) (s\<lparr>action_lock := True\<rparr>) of
           (Some e, s') \<Rightarrow> (Inl e, s'\<lparr>action_lock := False\<rparr>)
         | (None, s') \<Rightarrow>
             (Inr True, (s'\<lparr>action_lock := False\<rparr>)\<lparr>undone := undone s' @ [u]\<rparr>))
      else (Inr True, s\<lparr>undone := undone s @ [u]\<rparr>))"

definition undo :: "'v registry \<Rightarrow> 'v history \<Rightarrow> (exn + bool) \<times> 'v history" where
  "undo reg s =
     (case undo_select s of
        (None, s1) \<Rightarrow> (Inr True, s1)
      | (Some u, s1) \<Rightarrow> undo_unit reg u s1)"

subsection \<open>\<open>redo\<close>\<close>

text \<open>Lines 146 to 166.\<close>

definition redo :: "'v registry \<Rightarrow> 'v history \<Rightarrow> (exn + bool) \<times> 'v history" where
  "redo reg s =
     (if length (undone s) > 0 then
        (let u = last (undone s);
             s1 = s\<lparr>undone := butlast (undone s)\<rparr>
         in if \<not> action_lock s1 then
              (case forEach reg (map forward (heap s1 u)) (s1\<lparr>action_lock := True\<rparr>) of
                 (Some e, s') \<Rightarrow> (Inl e, s'\<lparr>action_lock := False\<rparr>)
               | (None, s') \<Rightarrow>
                   (Inr True,
                    (s'\<lparr>action_lock := False\<rparr>)\<lparr>action_groups := action_groups s' @ [u]\<rparr>))
            else (Inr True, s1\<lparr>action_groups := action_groups s1 @ [u]\<rparr>))
      else (Inr True, s))"

subsection \<open>The states the manager can be in\<close>

text \<open>
  The fields are private, so the manager is only ever in a state that the constructor
  and the calls made on it produce. Execution is single-threaded: between two calls the
  manager is \<open>Idle\<close>, and while \<open>undo\<close> or \<open>redo\<close> replays the unit \<open>u\<close> it is
  \<open>Undoing u\<close> or \<open>Redoing u\<close>. \<open>reach p s\<close> says that \<open>s\<close> can be the state in phase
  \<open>p\<close>:
  \<^item> when idle, the host calls \<open>push_action\<close> or \<open>group_actions\<close>, a timer fires, or
    \<open>undo\<close> or \<open>redo\<close> is called, which returns at once or raises the flag (lines 128
    and 152) and starts to replay;
  \<^item> during a replay, the registry is invoked, and the handler it runs may call any of
    the four methods back before it returns or throws;
  \<^item> a replay ends through the \<open>finally\<close>, by a throw or by reaching the push after it.
  The rules for the replay allow any invocation and any call-back in any order, which
  covers whatever the registry does.
\<close>

datatype phase = Idle | Undoing nat | Redoing nat

inductive reach :: "phase \<Rightarrow> 'v history \<Rightarrow> bool" where
  constructed: "reach Idle init"
| call_push_action: "reach Idle s \<Longrightarrow> reach Idle (push_action fn fp bn bp d s)"
| call_group_actions: "reach Idle s \<Longrightarrow> reach Idle (group_actions s)"
| timer_fires: "reach Idle s \<Longrightarrow> reach Idle (fire h s)"
| undo_nothing: "reach Idle s \<Longrightarrow> undo_select s = (None, s1) \<Longrightarrow> reach Idle s1"
| undo_enters:
    "reach Idle s \<Longrightarrow> undo_select s = (Some u, s1) \<Longrightarrow>
     reach (Undoing u) (s1\<lparr>action_lock := True\<rparr>)"
| undo_returns:
    "reach (Undoing u) t \<Longrightarrow>
     reach Idle ((t\<lparr>action_lock := False\<rparr>)\<lparr>undone := undone t @ [u]\<rparr>)"
| undo_leaves_by_throw: "reach (Undoing u) t \<Longrightarrow> reach Idle (t\<lparr>action_lock := False\<rparr>)"
| redo_enters:
    "reach Idle s \<Longrightarrow> length (undone s) > 0 \<Longrightarrow>
     reach (Redoing (last (undone s)))
       (s\<lparr>undone := butlast (undone s), action_lock := True\<rparr>)"
| redo_returns:
    "reach (Redoing u) t \<Longrightarrow>
     reach Idle ((t\<lparr>action_lock := False\<rparr>)\<lparr>action_groups := action_groups t @ [u]\<rparr>)"
| redo_leaves_by_throw: "reach (Redoing u) t \<Longrightarrow> reach Idle (t\<lparr>action_lock := False\<rparr>)"
| registry_invoked:
    "reach p t \<Longrightarrow> p \<noteq> Idle \<Longrightarrow> reach p (t\<lparr>invoked := invoked t @ [c]\<rparr>)"
| handler_push_action:
    "reach p t \<Longrightarrow> p \<noteq> Idle \<Longrightarrow> reach p (push_action fn fp bn bp d t)"
| handler_group_actions: "reach p t \<Longrightarrow> p \<noteq> Idle \<Longrightarrow> reach p (group_actions t)"
| handler_undo: "reach p t \<Longrightarrow> p \<noteq> Idle \<Longrightarrow> reach p (snd (undo reg t))"
| handler_redo: "reach p t \<Longrightarrow> p \<noteq> Idle \<Longrightarrow> reach p (snd (redo reg t))"

subsection \<open>Notions used in the statements\<close>

text \<open>The descriptor \<open>d\<close> as the pair logged for its invocation.\<close>

definition call_of :: "'v descriptor \<Rightarrow> string \<times> 'v list" where
  "call_of d = (name d, parameters d)"

text \<open>A registry under which no descriptor of the list throws.\<close>

definition succeeds :: "'v registry \<Rightarrow> 'v descriptor list \<Rightarrow> bool" where
  "succeeds reg ds = list_all (\<lambda>d. reg (name d) (parameters d) = None) ds"

section \<open>Properties\<close>

subsection \<open>The replay loop\<close>

lemma forEach_succeeds:
  "succeeds reg ds \<Longrightarrow> forEach reg ds s = (None, s\<lparr>invoked := invoked s @ map call_of ds\<rparr>)"
  by (induction ds arbitrary: s) (simp_all add: succeeds_def invoke_def call_of_def)

lemma forEach_throws:
  "succeeds reg ds \<Longrightarrow> reg (name d) (parameters d) = Some e \<Longrightarrow>
   forEach reg (ds @ d # ds') s = (Some e, s\<lparr>invoked := invoked s @ map call_of (ds @ [d])\<rparr>)"
  by (induction ds arbitrary: s) (simp_all add: succeeds_def invoke_def call_of_def)

lemma forEach_frame:
  "heap (snd (forEach reg ds s)) = heap s
   \<and> next_ref (snd (forEach reg ds s)) = next_ref s
   \<and> actions (snd (forEach reg ds s)) = actions s
   \<and> action_groups (snd (forEach reg ds s)) = action_groups s
   \<and> undone (snd (forEach reg ds s)) = undone s
   \<and> autogroup (snd (forEach reg ds s)) = autogroup s
   \<and> action_lock (snd (forEach reg ds s)) = action_lock s
   \<and> timers (snd (forEach reg ds s)) = timers s
   \<and> next_timer (snd (forEach reg ds s)) = next_timer s"
  by (induction ds arbitrary: s) (simp_all add: invoke_def split: option.splits)

lemma succeeds_rev: "succeeds reg (rev ds) = succeeds reg ds"
  by (simp add: succeeds_def list_all_iff)

subsection \<open>Recording and grouping\<close>

lemma pending_push_action:
  "\<not> action_lock s \<Longrightarrow>
   pending (push_action fn fp bn bp d s) =
     pending s @ [\<lparr>forward = \<lparr>name = fn, parameters = fp\<rparr>, backward = \<lparr>name = bn, parameters = bp\<rparr>\<rparr>]"
  by (simp add: push_action_def pending_def Let_def setTimeout_def clearTimeout_def split: option.splits)

lemma undone_push_action:
  "\<not> action_lock s \<Longrightarrow> undone (push_action fn fp bn bp d s) = []"
  by (simp add: push_action_def Let_def setTimeout_def clearTimeout_def split: option.splits)

lemma group_actions_empty_pending:
  assumes "\<not> action_lock s" and "pending s = []"
  shows "action_groups (group_actions s) = action_groups s @ [actions s]"
    and "heap (group_actions s) (actions s) = []"
    and "autogroup (group_actions s) = None"
    and "pending (group_actions s) = []"
    and "invoked (group_actions s) = invoked s"
    and "undone (group_actions s) = []"
  using assms by (simp_all add: group_actions_def pending_def)

subsection \<open>Selecting a unit\<close>

lemma undo_flush_idle: "autogroup s = None \<Longrightarrow> undo_flush s = s"
  by (simp add: undo_flush_def)

lemma undo_flush_action_lock: "action_lock (undo_flush s) = action_lock s"
  by (simp add: undo_flush_def group_actions_def clearTimeout_def Let_def split: option.splits)

lemma undo_flush_invoked: "invoked (undo_flush s) = invoked s"
  by (simp add: undo_flush_def group_actions_def clearTimeout_def Let_def split: option.splits)

lemma undo_flush_pending:
  "pending (undo_flush s) \<noteq> [] \<Longrightarrow>
   pending (undo_flush s) = pending s \<and> heap (undo_flush s) = heap s \<and> actions (undo_flush s) = actions s"
  by (auto simp add: undo_flush_def group_actions_def clearTimeout_def Let_def pending_def
      split: option.splits if_splits)

lemma undo_select_pending:
  "pending (undo_flush s) \<noteq> [] \<Longrightarrow> undo_select s = (Some (actions (undo_flush s)), undo_flush s)"
  by (simp add: undo_select_def pending_def Let_def)

lemma undo_select_group:
  "pending (undo_flush s) = [] \<Longrightarrow> action_groups (undo_flush s) = gs @ [u] \<Longrightarrow>
   undo_select s =
     (Some u, (undo_flush s)\<lparr>action_groups := gs,
                 heap := (heap (undo_flush s))(u := rev (heap (undo_flush s) u))\<rparr>)"
  by (simp add: undo_select_def pending_def Let_def)

lemma undo_select_idle_group:
  assumes "autogroup t = None" and "pending t = []" and "action_groups t = gs @ [u]"
  shows "undo_select t = (Some u, t\<lparr>action_groups := gs, heap := (heap t)(u := rev (heap t u))\<rparr>)"
  using assms undo_select_group [of t gs u] by (simp add: undo_flush_idle)

lemma undo_select_action_lock: "action_lock (snd (undo_select s)) = action_lock s"
  by (simp add: undo_select_def Let_def undo_flush_action_lock)

lemma undo_select_invoked: "invoked (snd (undo_select s)) = invoked s"
  by (simp add: undo_select_def Let_def undo_flush_invoked)

lemma undo_select_snd_lock:
  "undo_select s = (r, s1) \<Longrightarrow> action_lock s1 = action_lock s"
  using undo_select_action_lock [of s] by simp

lemma undo_select_snd_invoked:
  "undo_select s = (r, s1) \<Longrightarrow> invoked s1 = invoked s"
  using undo_select_invoked [of s] by simp

subsection \<open>Replaying a unit\<close>

lemma undo_unit_succeeds:
  "\<not> action_lock s \<Longrightarrow> succeeds reg (map backward (heap s u)) \<Longrightarrow>
   undo_unit reg u s =
     (Inr True, s\<lparr>invoked := invoked s @ map call_of (map backward (heap s u)),
                  action_lock := False, undone := undone s @ [u]\<rparr>)"
  by (simp add: undo_unit_def forEach_succeeds)

lemma undo_unit_locked:
  "action_lock s \<Longrightarrow> undo_unit reg u s = (Inr True, s\<lparr>undone := undone s @ [u]\<rparr>)"
  by (simp add: undo_unit_def)

lemma undo_unit_throws:
  "\<not> action_lock s \<Longrightarrow> heap s u = xs @ a # ys \<Longrightarrow> succeeds reg (map backward xs) \<Longrightarrow>
   reg (name (backward a)) (parameters (backward a)) = Some e \<Longrightarrow>
   undo_unit reg u s =
     (Inl e, s\<lparr>invoked := invoked s @ map call_of (map backward (xs @ [a])),
               action_lock := False\<rparr>)"
  using forEach_throws [of reg "map backward xs" "backward a" e "map backward ys" "s\<lparr>action_lock := True\<rparr>"]
  by (simp add: undo_unit_def)

lemma undo_unit_frame:
  "heap (snd (undo_unit reg u s)) = heap s
   \<and> actions (snd (undo_unit reg u s)) = actions s
   \<and> action_groups (snd (undo_unit reg u s)) = action_groups s
   \<and> autogroup (snd (undo_unit reg u s)) = autogroup s
   \<and> timers (snd (undo_unit reg u s)) = timers s"
  using forEach_frame [of reg "map backward (heap s u)" "s\<lparr>action_lock := True\<rparr>"]
  by (auto simp add: undo_unit_def split: prod.splits option.splits)

lemma undo_selected:
  "undo_select s = (Some u, s1) \<Longrightarrow> undo reg s = undo_unit reg u s1"
  by (simp add: undo_def)

lemma undo_pending:
  assumes "pending (undo_flush s) \<noteq> []"
  shows "undo reg s = undo_unit reg (actions s) (undo_flush s)"
proof -
  have "actions (undo_flush s) = actions s"
    using assms undo_flush_pending by blast
  then show ?thesis
    using assms by (simp add: undo_def undo_select_pending)
qed

lemma undo_idle_pending:
  assumes "autogroup s = None" and "pending s \<noteq> []"
  shows "undo reg s = undo_unit reg (actions s) s"
  using assms undo_pending [of s reg] by (simp add: undo_flush_idle)

lemma undo_pops_empty_group:
  assumes "autogroup t = None" and "pending t = []"
    and "action_groups t = gs @ [u]" and "heap t u = []"
  shows "fst (undo reg t) = Inr True
    \<and> invoked (snd (undo reg t)) = invoked t
    \<and> undone (snd (undo reg t)) = undone t @ [u]
    \<and> action_groups (snd (undo reg t)) = gs
    \<and> heap (snd (undo reg t)) = heap t
    \<and> action_lock (snd (undo reg t)) = action_lock t"
proof -
  have same: "(heap t)(u := rev (heap t u)) = heap t"
    using assms(4) by (simp add: fun_upd_idem)
  have sel: "undo_select t = (Some u, t\<lparr>action_groups := gs\<rparr>)"
    using undo_select_idle_group [OF assms(1,2,3)] same by simp
  have "undo reg t = undo_unit reg u (t\<lparr>action_groups := gs\<rparr>)"
    using sel by (rule undo_selected)
  then show ?thesis
    using assms(4) by (simp add: undo_unit_def)
qed

lemma redo_succeeds:
  "\<not> action_lock s \<Longrightarrow> undone s = us @ [u] \<Longrightarrow> succeeds reg (map forward (heap s u)) \<Longrightarrow>
   redo reg s =
     (Inr True, s\<lparr>undone := us, invoked := invoked s @ map call_of (map forward (heap s u)),
                  action_lock := False, action_groups := action_groups s @ [u]\<rparr>)"
  by (simp add: redo_def Let_def forEach_succeeds)

lemma redo_throws:
  "\<not> action_lock s \<Longrightarrow> undone s = us @ [u] \<Longrightarrow> heap s u = xs @ a # ys \<Longrightarrow>
   succeeds reg (map forward xs) \<Longrightarrow>
   reg (name (forward a)) (parameters (forward a)) = Some e \<Longrightarrow>
   redo reg s =
     (Inl e, s\<lparr>undone := us, invoked := invoked s @ map call_of (map forward (xs @ [a])),
               action_lock := False\<rparr>)"
  using forEach_throws [of reg "map forward xs" "forward a" e "map forward ys"
      "s\<lparr>undone := us, action_lock := True\<rparr>"]
  by (simp add: redo_def Let_def)

lemma redo_no_undone: "undone s = [] \<Longrightarrow> redo reg s = (Inr True, s)"
  by (simp add: redo_def)

subsection \<open>The flag and the timer handle\<close>

text \<open>
  Between calls the flag is clear, and a held timer handle means an empty undone-groups
  stack; during a replay the flag is set and no handle is held. The replay loop of
  \<open>undo\<close> and \<open>redo\<close> stays within \<open>reach\<close>.
\<close>

lemma locked_calls:
  "action_lock s \<Longrightarrow>
   push_action fn fp bn bp d s = s \<and> group_actions s = s\<lparr>autogroup := None\<rparr>"
  by (simp add: push_action_def group_actions_def)

lemma undo_flush_autogroup: "autogroup (undo_flush s) = None"
  by (simp add: undo_flush_def group_actions_def clearTimeout_def Let_def split: option.splits)

lemma undo_select_autogroup: "autogroup (snd (undo_select s)) = None"
  by (simp add: undo_select_def Let_def undo_flush_autogroup)

lemma locked_undo:
  "action_lock t \<Longrightarrow> autogroup t = None \<Longrightarrow>
   action_lock (snd (undo reg t)) \<and> autogroup (snd (undo reg t)) = None"
  by (simp add: undo_def undo_select_def undo_flush_def undo_unit_def Let_def)

lemma locked_redo:
  "action_lock t \<Longrightarrow> autogroup t = None \<Longrightarrow>
   action_lock (snd (redo reg t)) \<and> autogroup (snd (redo reg t)) = None"
  by (simp add: redo_def Let_def)

lemma idle_push_action:
  "\<not> action_lock s \<Longrightarrow>
   \<not> action_lock (push_action fn fp bn bp d s) \<and> undone (push_action fn fp bn bp d s) = []"
  by (simp add: push_action_def Let_def setTimeout_def clearTimeout_def split: option.splits)

lemma idle_group_actions:
  "\<not> action_lock s \<Longrightarrow>
   \<not> action_lock (group_actions s) \<and> autogroup (group_actions s) = None"
  by (simp add: group_actions_def)

lemma idle_fire:
  "\<not> action_lock s \<Longrightarrow> autogroup s = None \<or> undone s = [] \<Longrightarrow>
   \<not> action_lock (fire h s) \<and> (autogroup (fire h s) = None \<or> undone (fire h s) = [])"
  by (simp add: fire_def group_actions_def clearTimeout_def)

lemma reach_invariant:
  "reach p s \<Longrightarrow>
   (p = Idle \<longrightarrow> \<not> action_lock s \<and> (autogroup s = None \<or> undone s = []))
   \<and> (p \<noteq> Idle \<longrightarrow> action_lock s \<and> autogroup s = None)"
proof (induction rule: reach.induct)
  case constructed
  show ?case by (simp add: init_def)
next
  case (call_push_action s fn fp bn bp d)
  then show ?case using idle_push_action [of s fn fp bn bp d] by simp
next
  case (call_group_actions s)
  then show ?case using idle_group_actions [of s] by simp
next
  case (timer_fires s h)
  then show ?case using idle_fire [of s h] by simp
next
  case (undo_nothing s s1)
  then show ?case
    using undo_select_autogroup [of s] undo_select_action_lock [of s] by simp
next
  case (undo_enters s u s1)
  then show ?case
    using undo_select_autogroup [of s] by simp
next
  case (undo_returns u t)
  then show ?case by simp
next
  case (undo_leaves_by_throw u t)
  then show ?case by simp
next
  case (redo_enters s)
  then show ?case by auto
next
  case (redo_returns u t)
  then show ?case by simp
next
  case (redo_leaves_by_throw u t)
  then show ?case by simp
next
  case (registry_invoked p t c)
  then show ?case by simp
next
  case (handler_push_action p t fn fp bn bp d)
  then show ?case using locked_calls [of t fn fp bn bp d] by simp
next
  case (handler_group_actions p t)
  then show ?case using locked_calls [of t] by simp
next
  case (handler_undo p t reg)
  then show ?case using locked_undo [of t reg] by simp
next
  case (handler_redo p t reg)
  then show ?case using locked_redo [of t reg] by simp
qed

lemma reach_forEach:
  "reach p t \<Longrightarrow> p \<noteq> Idle \<Longrightarrow> reach p (snd (forEach reg ds t))"
proof (induction ds arbitrary: t)
  case Nil
  then show ?case by simp
next
  case (Cons d ds)
  have step: "reach p (t\<lparr>invoked := invoked t @ [(name d, parameters d)]\<rparr>)"
    using Cons.prems by (rule registry_invoked)
  show ?case
  proof (cases "reg (name d) (parameters d)")
    case None
    then show ?thesis
      using Cons.IH [OF step Cons.prems(2)] by (simp add: invoke_def)
  next
    case (Some e)
    then show ?thesis
      using step by (simp add: invoke_def)
  qed
qed

lemma reach_undo: "reach Idle s \<Longrightarrow> reach Idle (snd (undo reg s))"
proof -
  assume r: "reach Idle s"
  then have unlocked: "\<not> action_lock s"
    using reach_invariant by blast
  obtain r1 s1 where sel: "undo_select s = (r1, s1)"
    by (cases "undo_select s") blast
  show ?thesis
  proof (cases r1)
    case None
    then show ?thesis
      using undo_nothing [OF r, of s1] sel by (simp add: undo_def)
  next
    case (Some u)
    let ?t = "snd (forEach reg (map backward (heap s1 u)) (s1\<lparr>action_lock := True\<rparr>))"
    have "reach (Undoing u) (s1\<lparr>action_lock := True\<rparr>)"
      using undo_enters [OF r] sel Some by simp
    then have mid: "reach (Undoing u) ?t"
      by (rule reach_forEach) simp
    have l1: "\<not> action_lock s1"
      using unlocked undo_select_snd_lock [OF sel] by simp
    show ?thesis
      using undo_returns [OF mid] undo_leaves_by_throw [OF mid] l1 sel Some
      by (auto simp add: undo_def undo_unit_def split: prod.splits option.splits)
  qed
qed

lemma reach_redo: "reach Idle s \<Longrightarrow> reach Idle (snd (redo reg s))"
proof -
  assume r: "reach Idle s"
  then have unlocked: "\<not> action_lock s"
    using reach_invariant by blast
  show ?thesis
  proof (cases "length (undone s) > 0")
    case False
    then show ?thesis using r by (simp add: redo_def)
  next
    case True
    let ?u = "last (undone s)"
    let ?s1 = "s\<lparr>undone := butlast (undone s), action_lock := True\<rparr>"
    let ?t = "snd (forEach reg (map forward (heap s ?u)) ?s1)"
    have "reach (Redoing ?u) ?s1"
      using r True by (rule redo_enters)
    then have mid: "reach (Redoing ?u) ?t"
      by (rule reach_forEach) simp
    show ?thesis
      using redo_returns [OF mid] redo_leaves_by_throw [OF mid] unlocked True
      by (auto simp add: redo_def Let_def split: prod.splits option.splits)
  qed
qed

subsection \<open>Reversal\<close>

lemma rev_differs:
  assumes "2 \<le> length g" and "distinct g"
  shows "rev g \<noteq> g"
proof
  assume "rev g = g"
  then have "hd (rev g) = hd g" by simp
  moreover have "g \<noteq> []" using assms(1) by auto
  ultimately have "last g = hd g" by (simp add: hd_rev)
  then show False
    using assms by (cases g) (auto split: if_splits)
qed

section \<open>The claims\<close>

subsection \<open>C1: the scenario of the spec\<close>

text \<open>
  Claim C1. Push A (forward \<open>set_x [1]\<close>, backward \<open>set_x [0]\<close>), push B (forward
  \<open>set_y [2]\<close>, backward \<open>set_y [0]\<close>), \<open>group_actions()\<close>, \<open>undo()\<close>, \<open>redo()\<close>, on a
  fresh manager and a registry that never throws. The \<open>undo\<close> invokes \<open>set_y [0]\<close> then
  \<open>set_x [0]\<close>, as the claim says. The \<open>redo\<close> invokes \<open>set_y [2]\<close> then \<open>set_x [1]\<close>:
  \<open>undo\<close> reversed the popped group in place (line 121) and pushed that same array onto
  \<open>_undone\<close>, so \<open>redo\<close> walks it in reverse chronological order, where the claim
  expects \<open>set_x [1]\<close> then \<open>set_y [2]\<close>.
\<close>

theorem scenario_redo_replays_reversed:
  "invoked (snd (undo (\<lambda>_ _. None)
      (group_actions
        (push_action ''set_y'' [2] ''set_y'' [0] None
          (push_action ''set_x'' [1] ''set_x'' [0] None (init :: int history))))))
     = [(''set_y'', [0]), (''set_x'', [0])]
   \<and> invoked (snd (redo (\<lambda>_ _. None) (snd (undo (\<lambda>_ _. None)
      (group_actions
        (push_action ''set_y'' [2] ''set_y'' [0] None
          (push_action ''set_x'' [1] ''set_x'' [0] None (init :: int history))))))))
     = [(''set_y'', [0]), (''set_x'', [0]), (''set_y'', [2]), (''set_x'', [1])]"
  by (simp add: init_def push_action_def group_actions_def undo_def undo_select_def
      undo_flush_def undo_unit_def redo_def invoke_def Let_def)

subsection \<open>C2: a push after an undo of the pending buffer\<close>

text \<open>
  Claim C2. On a fresh manager, push A, \<open>undo()\<close>, push B, with a registry that never
  throws. The \<open>undo\<close> selects the pending buffer and replays it, but leaves it in
  \<open>_actions\<close>, and \<open>push_action\<close> only appends: the buffer then holds A and B, where the
  claim says it holds exactly B. A second \<open>undo\<close> therefore invokes the backward
  descriptor of A, already undone, once more. The other branch of \<open>undo\<close> does vacate
  the unit it replays (\<open>pop\<close>, line 120): after push A, \<open>group_actions()\<close>, \<open>undo()\<close>,
  push B the buffer holds exactly B.
\<close>

theorem pending_undo_leaves_buffer_in_place:
  "pending (push_action ''set_y'' [2] ''set_y'' [0] None
       (snd (undo (\<lambda>_ _. None)
         (push_action ''set_x'' [1] ''set_x'' [0] None (init :: int history))))) =
     [\<lparr>forward = \<lparr>name = ''set_x'', parameters = [1]\<rparr>,
       backward = \<lparr>name = ''set_x'', parameters = [0]\<rparr>\<rparr>,
      \<lparr>forward = \<lparr>name = ''set_y'', parameters = [2]\<rparr>,
       backward = \<lparr>name = ''set_y'', parameters = [0]\<rparr>\<rparr>]
   \<and> invoked (snd (undo (\<lambda>_ _. None)
       (push_action ''set_y'' [2] ''set_y'' [0] None
         (snd (undo (\<lambda>_ _. None)
           (push_action ''set_x'' [1] ''set_x'' [0] None (init :: int history))))))) =
     [(''set_x'', [0]), (''set_x'', [0]), (''set_y'', [0])]
   \<and> pending (push_action ''set_y'' [2] ''set_y'' [0] None
       (snd (undo (\<lambda>_ _. None) (group_actions
         (push_action ''set_x'' [1] ''set_x'' [0] None (init :: int history)))))) =
     [\<lparr>forward = \<lparr>name = ''set_y'', parameters = [2]\<rparr>,
       backward = \<lparr>name = ''set_y'', parameters = [0]\<rparr>\<rparr>]"
  by (simp add: init_def pending_def push_action_def group_actions_def undo_def
      undo_select_def undo_flush_def undo_unit_def invoke_def Let_def)

subsection \<open>C3: calls made while the flag is set\<close>

text \<open>
  Claim C3. In every state the manager can be in with the reentrancy flag set,
  \<open>push_action\<close> and \<open>group_actions\<close> are no-ops: the state they return is the state
  they were called in, field for field (pending buffer, committed groups, undone groups,
  timer handle, the heap of arrays, the host's timers and the invocation log), and they
  cannot fail. \<open>group_actions\<close> does assign \<open>null\<close> to the handle before it tests the
  flag, but no handle is held while the flag is set.
\<close>

theorem locked_calls_are_no_ops:
  "reach p t \<Longrightarrow> action_lock t \<Longrightarrow>
   push_action fn fp bn bp d t = t \<and> group_actions t = t"
  using reach_invariant [of p t] locked_calls [of t fn fp bn bp d] by auto

theorem locked_calls_are_no_ops_witness:
  "reach (Undoing 0)
     ((push_action ''set_x'' [1] ''set_x'' [0] None (init :: int history))
        \<lparr>action_lock := True\<rparr>)
   \<and> action_lock ((push_action ''set_x'' [1] ''set_x'' [0] None (init :: int history))
        \<lparr>action_lock := True\<rparr>)
   \<and> push_action ''f'' [1] ''b'' [0] (Some 5)
        ((push_action ''set_x'' [1] ''set_x'' [0] None (init :: int history))
           \<lparr>action_lock := True\<rparr>)
      = (push_action ''set_x'' [1] ''set_x'' [0] None (init :: int history))
           \<lparr>action_lock := True\<rparr>
   \<and> group_actions
        ((push_action ''set_x'' [1] ''set_x'' [0] None (init :: int history))
           \<lparr>action_lock := True\<rparr>)
      = (push_action ''set_x'' [1] ''set_x'' [0] None (init :: int history))
           \<lparr>action_lock := True\<rparr>"
proof -
  let ?s = "push_action ''set_x'' [1] ''set_x'' [0] None (init :: int history)"
  have r0: "reach Idle ?s"
    using constructed by (rule call_push_action)
  have sel: "undo_select ?s = (Some 0, ?s)"
    by (simp add: init_def push_action_def undo_select_def undo_flush_def Let_def)
  have r: "reach (Undoing 0) (?s\<lparr>action_lock := True\<rparr>)"
    using r0 sel by (rule undo_enters)
  have l: "action_lock (?s\<lparr>action_lock := True\<rparr>)"
    by simp
  show ?thesis
    using r l locked_calls_are_no_ops [OF r l, of "''f''" "[1]" "''b''" "[0]" "Some 5"]
    by simp
qed

subsection \<open>C4: the auto-group timer\<close>

text \<open>
  Claim C4. A push with a delay arms timer 0; \<open>group_actions()\<close> then forgets the handle
  (\<open>_autogroup\<close> is \<open>null\<close>) without calling \<open>clearTimeout\<close>, so the timer is still
  scheduled with the host. When it fires, its callback runs \<open>group_actions\<close> a second
  time and commits a second, empty group, where the claim says the callback never fires.
\<close>

theorem group_actions_leaves_timer_scheduled:
  "autogroup (push_action ''f'' [1] ''b'' [0] (Some 100) (init :: int history)) = Some 0
   \<and> autogroup (group_actions (push_action ''f'' [1] ''b'' [0] (Some 100) (init :: int history))) = None
   \<and> scheduled 0 (group_actions (push_action ''f'' [1] ''b'' [0] (Some 100) (init :: int history)))
   \<and> action_groups (group_actions (push_action ''f'' [1] ''b'' [0] (Some 100) (init :: int history))) = [0]
   \<and> action_groups (fire 0 (group_actions
         (push_action ''f'' [1] ''b'' [0] (Some 100) (init :: int history)))) = [0, 1]
   \<and> heap (fire 0 (group_actions
         (push_action ''f'' [1] ''b'' [0] (Some 100) (init :: int history)))) 1 = []"
  by (simp add: init_def push_action_def group_actions_def fire_def scheduled_def
      setTimeout_def clearTimeout_def Let_def)

subsection \<open>C5: a push forecloses redo\<close>

text \<open>
  Claim C5. Every \<open>push_action\<close> call made with the reentrancy flag clear appends the
  new action to the pending buffer and clears the undone-groups stack, whatever the
  buffer held before; a \<open>redo\<close> right after it finds nothing to redo, returns
  \<open>true\<close>, changes nothing and invokes nothing.
\<close>

theorem push_action_appends_and_forecloses_redo:
  "\<not> action_lock s \<Longrightarrow>
   pending (push_action fn fp bn bp d s) =
     pending s @ [\<lparr>forward = \<lparr>name = fn, parameters = fp\<rparr>,
                   backward = \<lparr>name = bn, parameters = bp\<rparr>\<rparr>]
   \<and> undone (push_action fn fp bn bp d s) = []
   \<and> redo reg (push_action fn fp bn bp d s) = (Inr True, push_action fn fp bn bp d s)
   \<and> invoked (snd (redo reg (push_action fn fp bn bp d s))) = invoked s"
  by (simp add: pending_push_action undone_push_action redo_no_undone)
     (simp add: push_action_def Let_def setTimeout_def clearTimeout_def split: option.splits)

theorem push_action_appends_and_forecloses_redo_witness:
  "\<not> action_lock (init :: int history)
   \<and> pending (init :: int history) = []
   \<and> pending (push_action ''set_x'' [1] ''set_x'' [0] None (init :: int history)) =
       [\<lparr>forward = \<lparr>name = ''set_x'', parameters = [1]\<rparr>,
         backward = \<lparr>name = ''set_x'', parameters = [0]\<rparr>\<rparr>]
   \<and> undone (push_action ''set_x'' [1] ''set_x'' [0] None (init :: int history)) = []
   \<and> invoked (snd (redo (\<lambda>_ _. None)
         (push_action ''set_x'' [1] ''set_x'' [0] None (init :: int history)))) = []"
  using push_action_appends_and_forecloses_redo
    [of "init :: int history" "''set_x''" "[1]" "''set_x''" "[0]" None "\<lambda>_ _. None"]
  by (simp add: init_def pending_def push_action_def redo_def)

subsection \<open>C6: a registry call that throws\<close>

text \<open>
  Claim C6. Let \<open>undo\<close> replay a unit (flag clear on entry, unit \<open>u\<close> selected) whose
  backward calls succeed for the actions \<open>xs\<close> and throw \<open>e\<close> at the action \<open>a\<close>. Then
  \<open>undo\<close> leaves by the very exception \<open>e\<close>; the flag is clear afterwards; the log holds
  the calls for \<open>xs\<close> and the failed call for \<open>a\<close> and nothing more (no call is repeated,
  none is compensated, the actions \<open>ys\<close> after \<open>a\<close> are not attempted); and nothing else
  of the state reached by the selection changes. The same holds for \<open>redo\<close> and the
  forward calls of the unit it popped.
\<close>

theorem replay_failure_propagates:
  "(undo_select s = (Some u, s1) \<and> \<not> action_lock s \<and> heap s1 u = xs @ a # ys
      \<and> succeeds reg (map backward xs)
      \<and> reg (name (backward a)) (parameters (backward a)) = Some e
     \<longrightarrow> undo reg s =
          (Inl e, s1\<lparr>invoked := invoked s @ map call_of (map backward (xs @ [a])),
                    action_lock := False\<rparr>))
   \<and> (undone t = us @ [u'] \<and> \<not> action_lock t \<and> heap t u' = xs' @ a' # ys'
      \<and> succeeds reg' (map forward xs')
      \<and> reg' (name (forward a')) (parameters (forward a')) = Some e'
     \<longrightarrow> redo reg' t =
          (Inl e', t\<lparr>undone := us,
                    invoked := invoked t @ map call_of (map forward (xs' @ [a'])),
                    action_lock := False\<rparr>))"
proof (intro conjI impI)
  assume h: "undo_select s = (Some u, s1) \<and> \<not> action_lock s \<and> heap s1 u = xs @ a # ys
      \<and> succeeds reg (map backward xs)
      \<and> reg (name (backward a)) (parameters (backward a)) = Some e"
  then have "\<not> action_lock s1" and "invoked s1 = invoked s"
    using undo_select_snd_lock undo_select_snd_invoked by blast+
  then show "undo reg s =
      (Inl e, s1\<lparr>invoked := invoked s @ map call_of (map backward (xs @ [a])),
                action_lock := False\<rparr>)"
    using h undo_unit_throws [of s1 u xs a ys reg e] by (simp add: undo_selected)
next
  assume "undone t = us @ [u'] \<and> \<not> action_lock t \<and> heap t u' = xs' @ a' # ys'
      \<and> succeeds reg' (map forward xs')
      \<and> reg' (name (forward a')) (parameters (forward a')) = Some e'"
  then show "redo reg' t =
      (Inl e', t\<lparr>undone := us,
                invoked := invoked t @ map call_of (map forward (xs' @ [a'])),
                action_lock := False\<rparr>)"
    using redo_throws [of t us u' xs' a' ys' reg' e'] by simp
qed

theorem replay_failure_propagates_witness:
  "fst (undo_select
         (push_action ''set_y'' [2] ''set_y'' [0] None
           (push_action ''set_x'' [1] ''set_x'' [0] None (init :: int history)))) = Some 0
   \<and> undone (snd (undo (\<lambda>_ _. None)
           (push_action ''set_y'' [2] ''set_y'' [0] None
             (push_action ''set_x'' [1] ''set_x'' [0] None (init :: int history))))) = [0]
   \<and> fst (undo (\<lambda>n ps. if n = ''set_y'' then Some ''boom'' else None)
         (push_action ''set_y'' [2] ''set_y'' [0] None
           (push_action ''set_x'' [1] ''set_x'' [0] None (init :: int history)))) = Inl ''boom''
   \<and> \<not> action_lock (snd (undo (\<lambda>n ps. if n = ''set_y'' then Some ''boom'' else None)
         (push_action ''set_y'' [2] ''set_y'' [0] None
           (push_action ''set_x'' [1] ''set_x'' [0] None (init :: int history)))))
   \<and> invoked (snd (undo (\<lambda>n ps. if n = ''set_y'' then Some ''boom'' else None)
         (push_action ''set_y'' [2] ''set_y'' [0] None
           (push_action ''set_x'' [1] ''set_x'' [0] None (init :: int history)))))
       = [(''set_x'', [0]), (''set_y'', [0])]
   \<and> fst (redo (\<lambda>n ps. if n = ''set_x'' then Some ''bang'' else None)
         (snd (undo (\<lambda>_ _. None)
           (push_action ''set_y'' [2] ''set_y'' [0] None
             (push_action ''set_x'' [1] ''set_x'' [0] None (init :: int history)))))) = Inl ''bang''
   \<and> \<not> action_lock (snd (redo (\<lambda>n ps. if n = ''set_x'' then Some ''bang'' else None)
         (snd (undo (\<lambda>_ _. None)
           (push_action ''set_y'' [2] ''set_y'' [0] None
             (push_action ''set_x'' [1] ''set_x'' [0] None (init :: int history)))))))
   \<and> invoked (snd (redo (\<lambda>n ps. if n = ''set_x'' then Some ''bang'' else None)
         (snd (undo (\<lambda>_ _. None)
           (push_action ''set_y'' [2] ''set_y'' [0] None
             (push_action ''set_x'' [1] ''set_x'' [0] None (init :: int history)))))))
       = [(''set_x'', [0]), (''set_y'', [0]), (''set_x'', [1])]"
  using replay_failure_propagates
    [where s = "push_action ''set_y'' [2] ''set_y'' [0] None
           (push_action ''set_x'' [1] ''set_x'' [0] None (init :: int history))"
       and u = 0
       and ?s1.0 = "push_action ''set_y'' [2] ''set_y'' [0] None
           (push_action ''set_x'' [1] ''set_x'' [0] None (init :: int history))"
       and xs = "[\<lparr>forward = \<lparr>name = ''set_x'', parameters = [1]\<rparr>,
                   backward = \<lparr>name = ''set_x'', parameters = [0]\<rparr>\<rparr>]"
       and a = "\<lparr>forward = \<lparr>name = ''set_y'', parameters = [2]\<rparr>,
                 backward = \<lparr>name = ''set_y'', parameters = [0]\<rparr>\<rparr>"
       and ys = "[]"
       and reg = "\<lambda>n ps. if n = ''set_y'' then Some ''boom'' else None"
       and e = "''boom''"
       and t = "snd (undo (\<lambda>_ _. None)
           (push_action ''set_y'' [2] ''set_y'' [0] None
             (push_action ''set_x'' [1] ''set_x'' [0] None (init :: int history))))"
       and us = "[]" and u' = 0
       and xs' = "[]"
       and a' = "\<lparr>forward = \<lparr>name = ''set_x'', parameters = [1]\<rparr>,
                 backward = \<lparr>name = ''set_x'', parameters = [0]\<rparr>\<rparr>"
       and ys' = "[\<lparr>forward = \<lparr>name = ''set_y'', parameters = [2]\<rparr>,
                 backward = \<lparr>name = ''set_y'', parameters = [0]\<rparr>\<rparr>]"
       and reg' = "\<lambda>n ps. if n = ''set_x'' then Some ''bang'' else None"
       and e' = "''bang''"]
  by (simp add: init_def push_action_def undo_def undo_select_def undo_flush_def
      undo_unit_def redo_def invoke_def succeeds_def call_of_def Let_def)

subsection \<open>C7: what \<open>undo\<close> leaves to \<open>redo\<close>\<close>

text \<open>
  Claim C7, as stated: every \<open>undo\<close> that selects a unit pushes it onto the
  undone-groups stack, also when a replay invocation fails. The push (line 139) stands
  after the \<open>try ... finally\<close>, so a throw leaves the method before it: with a registry
  that throws, the selected pending buffer is not pushed, and a selected committed group
  is popped and then on neither stack.
\<close>

theorem undo_failure_drops_unit_counterexample:
  "fst (undo_select (push_action ''set_x'' [1] ''set_x'' [0] None (init :: int history))) = Some 0
   \<and> fst (undo (\<lambda>_ _. Some ''boom'')
         (push_action ''set_x'' [1] ''set_x'' [0] None (init :: int history))) = Inl ''boom''
   \<and> undone (snd (undo (\<lambda>_ _. Some ''boom'')
         (push_action ''set_x'' [1] ''set_x'' [0] None (init :: int history)))) = []
   \<and> fst (undo_select (group_actions
         (push_action ''set_x'' [1] ''set_x'' [0] None (init :: int history)))) = Some 0
   \<and> undone (snd (undo (\<lambda>_ _. Some ''boom'') (group_actions
         (push_action ''set_x'' [1] ''set_x'' [0] None (init :: int history))))) = []
   \<and> action_groups (snd (undo (\<lambda>_ _. Some ''boom'') (group_actions
         (push_action ''set_x'' [1] ''set_x'' [0] None (init :: int history))))) = []"
  by (simp add: init_def push_action_def group_actions_def undo_def undo_select_def
      undo_flush_def undo_unit_def invoke_def Let_def)

text \<open>
  Claim C7, amended. Every \<open>undo\<close> that selects a unit \<open>u\<close> and returns, either
  because the flag was already set and the replay was skipped or because every backward
  call of the replay succeeded, returns \<open>true\<close> and pushes \<open>u\<close> onto the undone-groups
  stack as the selection left it; the array of the unit is as selected.
\<close>

theorem undo_pushes_unit_onto_undone:
  assumes "undo_select s = (Some u, s1)"
    and "action_lock s \<or> succeeds reg (map backward (heap s1 u))"
  shows "fst (undo reg s) = Inr True
    \<and> undone (snd (undo reg s)) = undone s1 @ [u]
    \<and> heap (snd (undo reg s)) = heap s1
    \<and> action_groups (snd (undo reg s)) = action_groups s1"
proof (cases "action_lock s")
  case True
  then have "action_lock s1"
    using assms(1) undo_select_snd_lock by blast
  then show ?thesis
    using assms(1) by (simp add: undo_selected undo_unit_locked)
next
  case False
  then have "\<not> action_lock s1" and "succeeds reg (map backward (heap s1 u))"
    using assms undo_select_snd_lock by blast+
  then show ?thesis
    using assms(1) by (simp add: undo_selected undo_unit_succeeds)
qed

theorem undo_pushes_unit_onto_undone_witness:
  "fst (undo_select (group_actions
       (push_action ''set_x'' [1] ''set_x'' [0] None (init :: int history)))) = Some 0
   \<and> succeeds (\<lambda>_ _. None) (map backward (heap (snd (undo_select (group_actions
         (push_action ''set_x'' [1] ''set_x'' [0] None (init :: int history))))) 0))
   \<and> fst (undo (\<lambda>_ _. None) (group_actions
         (push_action ''set_x'' [1] ''set_x'' [0] None (init :: int history)))) = Inr True
   \<and> undone (snd (undo (\<lambda>_ _. None) (group_actions
         (push_action ''set_x'' [1] ''set_x'' [0] None (init :: int history))))) = [0]
   \<and> action_lock ((push_action ''set_x'' [1] ''set_x'' [0] None (init :: int history))
         \<lparr>action_lock := True\<rparr>)
   \<and> fst (undo_select ((push_action ''set_x'' [1] ''set_x'' [0] None (init :: int history))
         \<lparr>action_lock := True\<rparr>)) = Some 0
   \<and> fst (undo (\<lambda>_ _. Some ''boom'')
         ((push_action ''set_x'' [1] ''set_x'' [0] None (init :: int history))
           \<lparr>action_lock := True\<rparr>)) = Inr True
   \<and> undone (snd (undo (\<lambda>_ _. Some ''boom'')
         ((push_action ''set_x'' [1] ''set_x'' [0] None (init :: int history))
           \<lparr>action_lock := True\<rparr>))) = [0]"
  using undo_pushes_unit_onto_undone
    [where s = "group_actions
         (push_action ''set_x'' [1] ''set_x'' [0] None (init :: int history))"
       and u = 0
       and ?s1.0 = "snd (undo_select (group_actions
         (push_action ''set_x'' [1] ''set_x'' [0] None (init :: int history))))"
       and reg = "\<lambda>_ _. None"]
    undo_pushes_unit_onto_undone
    [where s = "(push_action ''set_x'' [1] ''set_x'' [0] None (init :: int history))
         \<lparr>action_lock := True\<rparr>"
       and u = 0
       and ?s1.0 = "snd (undo_select
         ((push_action ''set_x'' [1] ''set_x'' [0] None (init :: int history))
           \<lparr>action_lock := True\<rparr>))"
       and reg = "\<lambda>_ _. Some ''boom''"]
  by (simp add: init_def push_action_def group_actions_def undo_def undo_select_def
      undo_flush_def undo_unit_def invoke_def succeeds_def Let_def)

subsection \<open>C8: an empty group\<close>

text \<open>
  Claim C8. With the flag clear and the pending buffer empty, \<open>group_actions\<close> pushes
  the (empty) buffer onto the committed groups. An \<open>undo\<close> right after it, and an
  \<open>undo\<close> in any later state \<open>t\<close> whose pending buffer is empty, with no timer armed,
  and whose last committed group \<open>u\<close> is empty, pops that group: it returns \<open>true\<close>,
  invokes nothing whatever the registry would do, pushes the group onto the undone
  groups, and leaves the deeper groups where they are.
\<close>

theorem empty_group_is_committed_and_undone_alone:
  assumes "\<not> action_lock s" and "pending s = []"
    and "autogroup t = None" and "pending t = []"
    and "action_groups t = gs @ [u]" and "heap t u = []"
  shows "action_groups (group_actions s) = action_groups s @ [actions s]
    \<and> heap (group_actions s) (actions s) = []
    \<and> fst (undo reg (group_actions s)) = Inr True
    \<and> invoked (snd (undo reg (group_actions s))) = invoked s
    \<and> undone (snd (undo reg (group_actions s))) = [actions s]
    \<and> action_groups (snd (undo reg (group_actions s))) = action_groups s
    \<and> fst (undo reg t) = Inr True
    \<and> invoked (snd (undo reg t)) = invoked t
    \<and> undone (snd (undo reg t)) = undone t @ [u]
    \<and> action_groups (snd (undo reg t)) = gs
    \<and> heap (snd (undo reg t)) = heap t
    \<and> action_lock (snd (undo reg t)) = action_lock t"
proof -
  note g = group_actions_empty_pending [OF assms(1,2)]
  have now: "fst (undo reg (group_actions s)) = Inr True
    \<and> invoked (snd (undo reg (group_actions s))) = invoked s
    \<and> undone (snd (undo reg (group_actions s))) = [actions s]
    \<and> action_groups (snd (undo reg (group_actions s))) = action_groups s"
    using undo_pops_empty_group [OF g(3) g(4) g(1) g(2), of reg] g(5,6) by simp
  have later: "fst (undo reg t) = Inr True
    \<and> invoked (snd (undo reg t)) = invoked t
    \<and> undone (snd (undo reg t)) = undone t @ [u]
    \<and> action_groups (snd (undo reg t)) = gs
    \<and> heap (snd (undo reg t)) = heap t
    \<and> action_lock (snd (undo reg t)) = action_lock t"
    using assms(3-6) by (rule undo_pops_empty_group)
  show ?thesis
    using g(1,2) now later by simp
qed

theorem empty_group_is_committed_and_undone_alone_witness:
  "\<not> action_lock (group_actions
       (push_action ''set_x'' [1] ''set_x'' [0] None (init :: int history)))
   \<and> pending (group_actions
       (push_action ''set_x'' [1] ''set_x'' [0] None (init :: int history))) = []
   \<and> action_groups (group_actions (group_actions
       (push_action ''set_x'' [1] ''set_x'' [0] None (init :: int history)))) = [0, 1]
   \<and> heap (group_actions (group_actions
       (push_action ''set_x'' [1] ''set_x'' [0] None (init :: int history)))) 1 = []
   \<and> fst (undo (\<lambda>_ _. Some ''boom'') (group_actions (group_actions
       (push_action ''set_x'' [1] ''set_x'' [0] None (init :: int history))))) = Inr True
   \<and> invoked (snd (undo (\<lambda>_ _. Some ''boom'') (group_actions (group_actions
       (push_action ''set_x'' [1] ''set_x'' [0] None (init :: int history)))))) = []
   \<and> undone (snd (undo (\<lambda>_ _. Some ''boom'') (group_actions (group_actions
       (push_action ''set_x'' [1] ''set_x'' [0] None (init :: int history)))))) = [1]
   \<and> action_groups (snd (undo (\<lambda>_ _. Some ''boom'') (group_actions (group_actions
       (push_action ''set_x'' [1] ''set_x'' [0] None (init :: int history)))))) = [0]"
  using empty_group_is_committed_and_undone_alone
    [where s = "group_actions
       (push_action ''set_x'' [1] ''set_x'' [0] None (init :: int history))"
       and t = "group_actions (group_actions
       (push_action ''set_x'' [1] ''set_x'' [0] None (init :: int history)))"
       and gs = "[0]" and u = 1 and reg = "\<lambda>_ _. Some ''boom''"]
  by (simp add: init_def push_action_def group_actions_def pending_def)

subsection \<open>C9: undoing twice\<close>

text \<open>
  Claim C9. In a state with a non-empty pending buffer and no timer armed, \<open>undo\<close>
  (whether it replays, skips the replay or throws) leaves \<open>_actions\<close> the same array
  with the same contents, so a second \<open>undo\<close> selects the same unit; when the flag is
  clear and the backward calls succeed, the second \<open>undo\<close> invokes the same backward
  descriptors, in the same order, as the first.
\<close>

theorem undo_keeps_pending_buffer:
  assumes "autogroup s = None" and "pending s \<noteq> []"
  shows "pending (snd (undo reg1 s)) = pending s
    \<and> actions (snd (undo reg1 s)) = actions s
    \<and> heap (snd (undo reg1 s)) = heap s
    \<and> fst (undo_select (snd (undo reg1 s))) = Some (actions s)
    \<and> (\<not> action_lock s \<and> succeeds reg1 (map backward (pending s))
          \<and> succeeds reg2 (map backward (pending s)) \<longrightarrow>
        invoked (snd (undo reg1 s)) = invoked s @ map call_of (map backward (pending s))
        \<and> invoked (snd (undo reg2 (snd (undo reg1 s)))) =
            invoked (snd (undo reg1 s)) @ map call_of (map backward (pending s)))"
proof -
  let ?s1 = "snd (undo reg1 s)"
  have u1: "undo reg1 s = undo_unit reg1 (actions s) s"
    using assms by (rule undo_idle_pending)
  have fr: "heap ?s1 = heap s" "actions ?s1 = actions s" "autogroup ?s1 = None"
    using undo_unit_frame [of reg1 "actions s" s] assms(1) by (simp_all add: u1)
  then have p1: "pending ?s1 = pending s"
    by (simp add: pending_def)
  have sel: "fst (undo_select ?s1) = Some (actions s)"
    using fr p1 assms(2) undo_select_pending [of ?s1] by (simp add: undo_flush_idle)
  have twice: "invoked ?s1 = invoked s @ map call_of (map backward (pending s))
        \<and> invoked (snd (undo reg2 ?s1)) =
            invoked ?s1 @ map call_of (map backward (pending s))"
    if h: "\<not> action_lock s \<and> succeeds reg1 (map backward (pending s))
          \<and> succeeds reg2 (map backward (pending s))"
  proof -
    have e1: "undo reg1 s =
        (Inr True, s\<lparr>invoked := invoked s @ map call_of (map backward (heap s (actions s))),
                     action_lock := False, undone := undone s @ [actions s]\<rparr>)"
      using h undo_unit_succeeds [of s reg1 "actions s"] by (simp add: u1 pending_def)
    then have l1: "\<not> action_lock ?s1" by simp
    have u2: "undo reg2 ?s1 = undo_unit reg2 (actions ?s1) ?s1"
      using fr(3) p1 assms(2) undo_idle_pending [of ?s1 reg2] by simp
    have "succeeds reg2 (map backward (heap ?s1 (actions ?s1)))"
      using h fr by (simp add: pending_def)
    then have "invoked (snd (undo reg2 ?s1)) =
        invoked ?s1 @ map call_of (map backward (heap ?s1 (actions ?s1)))"
      using l1 undo_unit_succeeds [of ?s1 reg2 "actions ?s1"] by (simp add: u2)
    then show ?thesis
      using e1 fr by (simp add: pending_def)
  qed
  show ?thesis
    using p1 fr(1,2) sel twice by blast
qed

theorem undo_keeps_pending_buffer_witness:
  "autogroup (push_action ''set_y'' [2] ''set_y'' [0] None
       (push_action ''set_x'' [1] ''set_x'' [0] None (init :: int history))) = None
   \<and> length (pending (push_action ''set_y'' [2] ''set_y'' [0] None
       (push_action ''set_x'' [1] ''set_x'' [0] None (init :: int history)))) = 2
   \<and> \<not> action_lock (push_action ''set_y'' [2] ''set_y'' [0] None
       (push_action ''set_x'' [1] ''set_x'' [0] None (init :: int history)))
   \<and> pending (snd (undo (\<lambda>_ _. None) (push_action ''set_y'' [2] ''set_y'' [0] None
       (push_action ''set_x'' [1] ''set_x'' [0] None (init :: int history))))) =
      pending (push_action ''set_y'' [2] ''set_y'' [0] None
       (push_action ''set_x'' [1] ''set_x'' [0] None (init :: int history)))
   \<and> invoked (snd (undo (\<lambda>_ _. None) (push_action ''set_y'' [2] ''set_y'' [0] None
       (push_action ''set_x'' [1] ''set_x'' [0] None (init :: int history))))) =
      [(''set_x'', [0]), (''set_y'', [0])]
   \<and> invoked (snd (undo (\<lambda>_ _. None) (snd (undo (\<lambda>_ _. None)
       (push_action ''set_y'' [2] ''set_y'' [0] None
         (push_action ''set_x'' [1] ''set_x'' [0] None (init :: int history))))))) =
      [(''set_x'', [0]), (''set_y'', [0]), (''set_x'', [0]), (''set_y'', [0])]"
  using undo_keeps_pending_buffer
    [where s = "push_action ''set_y'' [2] ''set_y'' [0] None
       (push_action ''set_x'' [1] ''set_x'' [0] None (init :: int history))"
       and ?reg1.0 = "\<lambda>_ _. None" and ?reg2.0 = "\<lambda>_ _. None"]
  by (simp add: init_def push_action_def pending_def succeeds_def call_of_def)

subsection \<open>C10: undo, redo and the order of a committed group\<close>

text \<open>
  Claim C10. Let the flag be clear, no timer armed, the pending buffer empty and \<open>g\<close> the
  contents of the last committed group \<open>u\<close>; let no call throw. After \<open>undo\<close> and
  \<open>redo\<close> the committed groups are the same references again, with \<open>u\<close> on top, but
  the array of \<open>u\<close> now holds \<open>rev g\<close>, which differs from \<open>g\<close> when \<open>g\<close> has two or
  more actions, all different. The first \<open>undo\<close> invoked the backward descriptors in
  reverse order, \<open>redo\<close> the forward descriptors in reverse order as well, and a second
  \<open>undo\<close> invokes the backward descriptors in the order of \<open>g\<close>, the order in which the
  actions were pushed.
\<close>

theorem undo_redo_reverses_committed_group:
  assumes "\<not> action_lock s" and "autogroup s = None" and "pending s = []"
    and "action_groups s = gs @ [u]" and "heap s u = g"
    and "succeeds reg1 (map backward g)"
    and "succeeds reg2 (map forward g)"
    and "succeeds reg3 (map backward g)"
    and "s1 = snd (undo reg1 s)" and "s2 = snd (redo reg2 s1)" and "s3 = snd (undo reg3 s2)"
  shows "action_groups s2 = action_groups s
    \<and> last (action_groups s2) = u
    \<and> heap s2 u = rev g
    \<and> (2 \<le> length g \<and> distinct g \<longrightarrow> heap s2 u \<noteq> heap s u)
    \<and> invoked s1 = invoked s @ map call_of (map backward (rev g))
    \<and> invoked s2 = invoked s1 @ map call_of (map forward (rev g))
    \<and> invoked s3 = invoked s2 @ map call_of (map backward g)"
proof -
  let ?h1 = "(heap s)(u := rev g)"
  have sel1: "undo_select s = (Some u, s\<lparr>action_groups := gs, heap := ?h1\<rparr>)"
    using undo_select_idle_group [OF assms(2,3,4)] assms(5) by simp
  have ok1: "succeeds reg1 (map backward (rev g))"
    using assms(6) by (simp add: succeeds_rev rev_map [symmetric])
  have e1: "s1 = s\<lparr>action_groups := gs, heap := ?h1,
        invoked := invoked s @ map call_of (map backward (rev g)),
        action_lock := False, undone := undone s @ [u]\<rparr>"
    using assms(1) ok1 undo_selected [OF sel1, of reg1]
      undo_unit_succeeds [of "s\<lparr>action_groups := gs, heap := ?h1\<rparr>" reg1 u]
    by (simp add: assms(9))
  have ok2: "succeeds reg2 (map forward (rev g))"
    using assms(7) by (simp add: succeeds_rev rev_map [symmetric])
  have e2: "s2 = s1\<lparr>undone := undone s,
        invoked := invoked s1 @ map call_of (map forward (rev g)),
        action_lock := False, action_groups := gs @ [u]\<rparr>"
    using ok2 redo_succeeds [of s1 "undone s" u reg2]
    by (simp add: assms(10) e1)
  have pend2: "pending s2 = []"
    using assms(3,5) by (auto simp add: e2 e1 pending_def)
  have sel2: "undo_select s2 =
      (Some u, s2\<lparr>action_groups := gs, heap := (heap s2)(u := rev (heap s2 u))\<rparr>)"
    using undo_select_idle_group [of s2 gs u] pend2 assms(2) by (simp add: e2 e1)
  have h2: "heap s2 u = rev g"
    by (simp add: e2 e1)
  have e3: "invoked s3 = invoked s2 @ map call_of (map backward g)"
    using assms(8) h2 undo_selected [OF sel2, of reg3]
      undo_unit_succeeds
        [of "s2\<lparr>action_groups := gs, heap := (heap s2)(u := rev (heap s2 u))\<rparr>" reg3 u]
    by (simp add: assms(11)) (simp add: e2 e1)
  have diff: "2 \<le> length g \<and> distinct g \<longrightarrow> heap s2 u \<noteq> heap s u"
    using rev_differs [of g] h2 assms(5) by simp
  show ?thesis
    using e3 h2 diff assms(4) by (simp add: e2 e1)
qed

theorem undo_redo_reverses_committed_group_witness:
  "\<not> action_lock (group_actions (push_action ''set_y'' [2] ''set_y'' [0] None
       (push_action ''set_x'' [1] ''set_x'' [0] None (init :: int history))))
   \<and> autogroup (group_actions (push_action ''set_y'' [2] ''set_y'' [0] None
       (push_action ''set_x'' [1] ''set_x'' [0] None (init :: int history)))) = None
   \<and> pending (group_actions (push_action ''set_y'' [2] ''set_y'' [0] None
       (push_action ''set_x'' [1] ''set_x'' [0] None (init :: int history)))) = []
   \<and> action_groups (group_actions (push_action ''set_y'' [2] ''set_y'' [0] None
       (push_action ''set_x'' [1] ''set_x'' [0] None (init :: int history)))) = [0]
   \<and> heap (group_actions (push_action ''set_y'' [2] ''set_y'' [0] None
       (push_action ''set_x'' [1] ''set_x'' [0] None (init :: int history)))) 0 =
        [\<lparr>forward = \<lparr>name = ''set_x'', parameters = [1]\<rparr>,
          backward = \<lparr>name = ''set_x'', parameters = [0]\<rparr>\<rparr>,
         \<lparr>forward = \<lparr>name = ''set_y'', parameters = [2]\<rparr>,
          backward = \<lparr>name = ''set_y'', parameters = [0]\<rparr>\<rparr>]
   \<and> action_groups (snd (redo (\<lambda>_ _. None) (snd (undo (\<lambda>_ _. None) (group_actions (push_action ''set_y'' [2] ''set_y'' [0] None
       (push_action ''set_x'' [1] ''set_x'' [0] None (init :: int history)))))))) = [0]
   \<and> heap (snd (redo (\<lambda>_ _. None) (snd (undo (\<lambda>_ _. None) (group_actions (push_action ''set_y'' [2] ''set_y'' [0] None
       (push_action ''set_x'' [1] ''set_x'' [0] None (init :: int history)))))))) 0 =
        [\<lparr>forward = \<lparr>name = ''set_y'', parameters = [2]\<rparr>,
          backward = \<lparr>name = ''set_y'', parameters = [0]\<rparr>\<rparr>,
         \<lparr>forward = \<lparr>name = ''set_x'', parameters = [1]\<rparr>,
          backward = \<lparr>name = ''set_x'', parameters = [0]\<rparr>\<rparr>]
   \<and> invoked (snd (undo (\<lambda>_ _. None) (group_actions (push_action ''set_y'' [2] ''set_y'' [0] None
       (push_action ''set_x'' [1] ''set_x'' [0] None (init :: int history)))))) = [(''set_y'', [0]), (''set_x'', [0])]
   \<and> invoked (snd (undo (\<lambda>_ _. None) (snd (redo (\<lambda>_ _. None) (snd (undo (\<lambda>_ _. None) (group_actions (push_action ''set_y'' [2] ''set_y'' [0] None
       (push_action ''set_x'' [1] ''set_x'' [0] None (init :: int history)))))))))) =
        [(''set_y'', [0]), (''set_x'', [0]), (''set_y'', [2]), (''set_x'', [1]),
         (''set_x'', [0]), (''set_y'', [0])]"
  using undo_redo_reverses_committed_group
    [where s = "group_actions (push_action ''set_y'' [2] ''set_y'' [0] None
       (push_action ''set_x'' [1] ''set_x'' [0] None (init :: int history)))"
       and gs = "[]" and u = 0
       and g = "[\<lparr>forward = \<lparr>name = ''set_x'', parameters = [1]\<rparr>,
          backward = \<lparr>name = ''set_x'', parameters = [0]\<rparr>\<rparr>,
         \<lparr>forward = \<lparr>name = ''set_y'', parameters = [2]\<rparr>,
          backward = \<lparr>name = ''set_y'', parameters = [0]\<rparr>\<rparr>]"
       and ?reg1.0 = "\<lambda>_ _. None" and ?reg2.0 = "\<lambda>_ _. None" and ?reg3.0 = "\<lambda>_ _. None"
       and ?s1.0 = "snd (undo (\<lambda>_ _. None) (group_actions (push_action ''set_y'' [2] ''set_y'' [0] None
       (push_action ''set_x'' [1] ''set_x'' [0] None (init :: int history)))))"
       and ?s2.0 = "snd (redo (\<lambda>_ _. None) (snd (undo (\<lambda>_ _. None) (group_actions (push_action ''set_y'' [2] ''set_y'' [0] None
       (push_action ''set_x'' [1] ''set_x'' [0] None (init :: int history)))))))"
       and ?s3.0 = "snd (undo (\<lambda>_ _. None) (snd (redo (\<lambda>_ _. None) (snd (undo (\<lambda>_ _. None) (group_actions (push_action ''set_y'' [2] ''set_y'' [0] None
       (push_action ''set_x'' [1] ''set_x'' [0] None (init :: int history)))))))))"]
  by (simp add: init_def push_action_def group_actions_def pending_def succeeds_def
      call_of_def)

end
